theory Spec2Isabelle
  imports Main
begin

section \<open>The connection pool of libcpp-pg-pool.hpp\<close>

text \<open>
  The class \<open>lklibs::PgPool\<close> keeps a \<open>std::queue\<close> of open \<open>pqxx::connection\<close> objects
  behind one mutex and one condition variable. Every member function body runs with
  \<open>mtx\<close> held from its first statement to its last, so a body is one atomic step of the
  model; the only place where the lock is given up in the middle is
  \<open>connectionAvailable.wait\<close>, where the calling thread parks itself.

  A connection object is identified by its address, a thread by a number. The model
  holds the four data members as values. The life of the pool object ends with its
  destructor; what a thread or a deleter does with the object after that has no
  meaning in C++, and the model gives it the outcome \<open>Undefined\<close> (see \<open>step\<close>).
\<close>

type_synonym conn = nat
type_synonym tid = nat

datatype error =
    pqxx_failure string    \<comment> \<open>whatever \<open>pqxx::connection(connectionString)\<close> throws\<close>
  | runtime_error string   \<comment> \<open>\<open>std::runtime_error\<close>\<close>

record PgPool =
  connectionString :: string
  poolSize :: nat               \<comment> \<open>\<open>size_t\<close>; the only use is \<open>i < poolSize\<close>, no arithmetic wraps\<close>
  pool :: "conn list"           \<comment> \<open>\<open>std::queue\<close>: \<open>front\<close> is the head, \<open>push\<close> appends\<close>
  stop :: bool

subsection \<open>The database client\<close>

text \<open>
  libpqxx is not part of the repository. Opening a connection either throws or yields a
  new connection object; which of the two is decided outside the program, so the
  outcome of the \<open>i\<close>-th attempt on a connection string is a parameter. The record
  \<open>server\<close> logs what happened: the number of attempts, the connections opened and the
  ones closed again (a \<open>pqxx::connection\<close> is closed when the object is deleted).
\<close>

type_synonym connector = "string \<Rightarrow> nat \<Rightarrow> error + conn"

record server =
  attempts :: nat
  opened :: "conn list"
  closed :: "conn list"

definition make_unique :: "connector \<Rightarrow> string \<Rightarrow> server \<Rightarrow> (error + conn) \<times> server" where
  "make_unique mk cs w =
     (case mk cs (attempts w) of
        Inl e \<Rightarrow> (Inl e, w\<lparr>attempts := Suc (attempts w)\<rparr>)
      | Inr c \<Rightarrow> (Inr c, w\<lparr>attempts := Suc (attempts w), opened := opened w @ [c]\<rparr>))"

definition createConnection :: "connector \<Rightarrow> PgPool \<Rightarrow> server \<Rightarrow> (error + conn) \<times> server" where
  "createConnection mk this w = make_unique mk (connectionString this) w"

subsection \<open>Constructor\<close>

text \<open>
  \<^verbatim>\<open>for (size_t i = 0; i < poolSize; ++i) { pool.push(createConnection()); }\<close>
  An exception of \<open>createConnection\<close> leaves the constructor; the members built so far
  are destroyed, and with the queue the connections it owns, so no object results.
\<close>

function ctor_loop :: "connector \<Rightarrow> nat \<Rightarrow> PgPool \<Rightarrow> server \<Rightarrow> (error + PgPool) \<times> server" where
  "ctor_loop mk i this w =
     (if i < poolSize this then
        (case createConnection mk this w of
           (Inl e, w') \<Rightarrow> (Inl e, w'\<lparr>closed := closed w' @ pool this\<rparr>)
         | (Inr c, w') \<Rightarrow> ctor_loop mk (Suc i) (this\<lparr>pool := pool this @ [c]\<rparr>) w')
      else (Inr this, w))"
  by pat_completeness auto
termination
  by (relation "measure (\<lambda>(mk, i, this, w). poolSize this - i)") auto

definition PgPool_ctor :: "connector \<Rightarrow> string \<Rightarrow> nat \<Rightarrow> server \<Rightarrow> (error + PgPool) \<times> server" where
  "PgPool_ctor mk cs n w =
     ctor_loop mk 0 \<lparr>connectionString = cs, poolSize = n, pool = [], stop = False\<rparr> w"

subsection \<open>Threads, the condition variable and shared pointers\<close>

text \<open>
  \<open>waiting\<close> lists the threads blocked inside \<open>connectionAvailable.wait\<close>; \<open>woken\<close> lists
  the threads that were unblocked and have not yet taken the mutex again to evaluate
  the predicate. \<open>blocks\<close> is the heap of \<open>std::shared_ptr\<close> control blocks ever created
  by \<open>acquire\<close>: the managed pointer and the use count, the index being the identity of
  the block. A block whose count is 0 has run its deleter and is gone.
\<close>

record sys =
  obj :: PgPool
  srv :: server
  blocks :: "(conn \<times> nat) list"
  waiting :: "tid list"
  woken :: "tid list"

datatype outcome =
    Blocked            \<comment> \<open>the call is parked in \<open>wait\<close>\<close>
  | Threw error
  | Got nat conn       \<comment> \<open>\<open>acquire\<close> returned: control block and connection\<close>
  | Released conn      \<comment> \<open>the deleter ran \<open>returnConnection\<close>\<close>
  | Done
  | Undefined          \<comment> \<open>a member function was entered on the destroyed pool\<close>

definition init :: "PgPool \<Rightarrow> server \<Rightarrow> sys" where
  "init p w = \<lparr>obj = p, srv = w, blocks = [], waiting = [], woken = []\<rparr>"

text \<open>
  \<open>notify_one\<close> unblocks one of the waiting threads, the standard does not say which:
  the scheduler's choice is the number \<open>k\<close>. \<open>notify_all\<close> unblocks all of them.
\<close>

definition notify_one :: "nat \<Rightarrow> sys \<Rightarrow> sys" where
  "notify_one k s =
     (if waiting s = [] then s
      else let t = waiting s ! (k mod length (waiting s))
           in s\<lparr>waiting := remove1 t (waiting s), woken := woken s @ [t]\<rparr>)"

definition notify_all :: "sys \<Rightarrow> sys" where
  "notify_all s = s\<lparr>waiting := [], woken := woken s @ waiting s\<rparr>"

text \<open>
  \<^verbatim>\<open>connectionAvailable.wait(lock, [this]() { return !pool.empty() || stop; });
  if (stop) throw std::runtime_error("Connection pool is shutting down");
  auto conn = std::move(pool.front());  pool.pop();
  return std::shared_ptr<pqxx::connection>(conn.release(), deleter);\<close>
  \<open>wait(lock, pred)\<close> is \<open>while (!pred()) wait(lock)\<close>: a thread that enters and a thread
  that comes back from a wake-up run the same text from the test of the predicate on.
  \<open>front\<close> is reached only with a non-empty queue, since \<open>stop\<close> is false there.
\<close>

definition PoolShuttingDown :: error where
  "PoolShuttingDown = runtime_error ''Connection pool is shutting down''"

definition acquire :: "tid \<Rightarrow> sys \<Rightarrow> outcome \<times> sys" where
  "acquire t s =
     (let this = obj s in
      if \<not> (pool this \<noteq> [] \<or> stop this) then (Blocked, s\<lparr>waiting := waiting s @ [t]\<rparr>)
      else if stop this then (Threw PoolShuttingDown, s)
      else (Got (length (blocks s)) (hd (pool this)),
            s\<lparr>obj := this\<lparr>pool := tl (pool this)\<rparr>,
              blocks := blocks s @ [(hd (pool this), 1)]\<rparr>))"

text \<open>
  \<^verbatim>\<open>pool.push(std::unique_ptr<pqxx::connection>(conn));
  connectionAvailable.notify_one();\<close>
\<close>

definition returnConnection :: "nat \<Rightarrow> conn \<Rightarrow> sys \<Rightarrow> sys" where
  "returnConnection k c s = notify_one k (s\<lparr>obj := (obj s)\<lparr>pool := pool (obj s) @ [c]\<rparr>\<rparr>)"

text \<open>
  Copying a \<open>shared_ptr\<close> increments the use count of its control block; destroying one
  decrements it, and the destruction that brings it to 0 calls the deleter, which is
  the lambda of \<open>acquire\<close> calling \<open>returnConnection\<close>. Only a live block has owners.
\<close>

definition copy_ref :: "nat \<Rightarrow> sys \<Rightarrow> (outcome \<times> sys) option" where
  "copy_ref b s =
     (if b < length (blocks s) \<and> 0 < snd (blocks s ! b)
      then Some (Done, s\<lparr>blocks := (blocks s)[b := (fst (blocks s ! b), Suc (snd (blocks s ! b)))]\<rparr>)
      else None)"

definition drop_ref :: "nat \<Rightarrow> nat \<Rightarrow> sys \<Rightarrow> (outcome \<times> sys) option" where
  "drop_ref b k s =
     (if b < length (blocks s) \<and> 0 < snd (blocks s ! b)
      then let c = fst (blocks s ! b); n = snd (blocks s ! b) - 1;
               s' = s\<lparr>blocks := (blocks s)[b := (c, n)]\<rparr>
           in if n = 0 then Some (Released c, returnConnection k c s') else Some (Done, s')
      else None)"

text \<open>
  \<^verbatim>\<open>stop = true;  connectionAvailable.notify_all();
  while (!pool.empty()) { auto conn = std::move(pool.front()); pool.pop(); conn.reset(); }\<close>
  This is the body of the destructor. \<open>mtx\<close> is held up to its closing brace, and right
  after it the members \<open>stop\<close>, \<open>connectionAvailable\<close>, \<open>mtx\<close> and \<open>pool\<close> are destroyed.
\<close>

fun drain :: "conn list \<Rightarrow> server \<Rightarrow> conn list \<times> server" where
  "drain [] w = ([], w)"
| "drain (c # q) w = drain q (w\<lparr>closed := closed w @ [c]\<rparr>)"

definition PgPool_dtor :: "sys \<Rightarrow> sys" where
  "PgPool_dtor s =
     (let s1 = notify_all (s\<lparr>obj := (obj s)\<lparr>stop := True\<rparr>\<rparr>);
          (q, w) = drain (pool (obj s1)) (srv s1)
      in s1\<lparr>obj := (obj s1)\<lparr>pool := q\<rparr>, srv := w\<rparr>)"

subsection \<open>Runs\<close>

text \<open>
  What the threads of a program can do with one pool. An event that cannot happen in a
  state (a blocked thread calling \<open>acquire\<close>, an owner of a dead control block, a second
  run of the destructor) has no successor.

  \<open>stop\<close> is written by the destructor only, and no other thread gets \<open>mtx\<close> before the
  destructor body is left and the members are destroyed. A step that finds \<open>stop\<close> set
  is therefore a step on a destroyed object: a call of \<open>acquire\<close>, a thread that comes
  back from \<open>wait\<close> and must lock \<open>mtx\<close> again, and the deleter of a last owner, which
  calls \<open>returnConnection\<close> through the \<open>this\<close> it captured, all use the destroyed mutex
  and queue. Such a step has the outcome \<open>Undefined\<close>; the bodies of \<open>acquire\<close> and
  \<open>returnConnection\<close> are not run for it. Of the destruction of a last owner only the
  part that is defined is kept, the count of the control block going to 0. Copying a
  \<open>shared_ptr\<close> and destroying one that is not the last touch the control block alone
  and stay defined. After an outcome \<open>Undefined\<close> the program as a whole has no defined
  behaviour; what a run lists after one says nothing about the program.
\<close>

datatype event =
    Acquire tid        \<comment> \<open>a running thread calls \<open>acquire\<close>\<close>
  | Resume tid         \<comment> \<open>an unblocked thread takes the mutex and tests the predicate\<close>
  | Spurious tid       \<comment> \<open>a blocked thread wakes up without a notification\<close>
  | Copy nat           \<comment> \<open>a \<open>shared_ptr\<close> of the block is copied\<close>
  | Drop nat nat       \<comment> \<open>a \<open>shared_ptr\<close> of the block is destroyed\<close>
  | Destroy            \<comment> \<open>\<open>~PgPool\<close>\<close>

fun step :: "sys \<Rightarrow> event \<Rightarrow> (outcome \<times> sys) option" where
  "step s (Acquire t) =
     (if t \<in> set (waiting s) \<or> t \<in> set (woken s) then None
      else if stop (obj s) then Some (Undefined, s)
      else Some (acquire t s))"
| "step s (Resume t) =
     (if t \<in> set (woken s)
      then if stop (obj s) then Some (Undefined, s\<lparr>woken := removeAll t (woken s)\<rparr>)
           else Some (acquire t (s\<lparr>woken := removeAll t (woken s)\<rparr>))
      else None)"
| "step s (Spurious t) =
     (if t \<in> set (waiting s)
      then Some (Done, s\<lparr>waiting := removeAll t (waiting s), woken := woken s @ [t]\<rparr>)
      else None)"
| "step s (Copy b) = copy_ref b s"
| "step s (Drop b k) =
     (if stop (obj s) \<and> b < length (blocks s) \<and> snd (blocks s ! b) = 1
      then Some (Undefined, s\<lparr>blocks := (blocks s)[b := (fst (blocks s ! b), 0)]\<rparr>)
      else drop_ref b k s)"
| "step s Destroy = (if stop (obj s) then None else Some (Done, PgPool_dtor s))"

fun exec :: "sys \<Rightarrow> event list \<Rightarrow> (outcome list \<times> sys) option" where
  "exec s [] = Some ([], s)"
| "exec s (e # es) =
     (case step s e of
        None \<Rightarrow> None
      | Some (out, s') \<Rightarrow>
          (case exec s' es of None \<Rightarrow> None | Some (outs, s'') \<Rightarrow> Some (out # outs, s'')))"

subsection \<open>Measures on runs and states\<close>

text \<open>
  The connections checked out are the live control blocks. For a run with events \<open>es\<close>
  and outcomes \<open>outs\<close>, \<open>copies b es\<close> and \<open>drops b es\<close> count the owners of block \<open>b\<close> that
  were made by copying and the owners that were destroyed, and \<open>releases b es outs\<close>
  counts how often the deleter of block \<open>b\<close> ran \<open>returnConnection\<close>.
\<close>

definition checked_out :: "sys \<Rightarrow> nat" where
  "checked_out s = length (filter (\<lambda>(c, n). 0 < n) (blocks s))"

fun is_copy :: "nat \<Rightarrow> event \<Rightarrow> bool" where
  "is_copy b (Copy b') = (b' = b)"
| "is_copy b _ = False"

fun is_drop :: "nat \<Rightarrow> event \<Rightarrow> bool" where
  "is_drop b (Drop b' k) = (b' = b)"
| "is_drop b _ = False"

fun is_release :: "nat \<Rightarrow> event \<times> outcome \<Rightarrow> bool" where
  "is_release b (Drop b' k, Released c) = (b' = b)"
| "is_release b _ = False"

definition copies :: "nat \<Rightarrow> event list \<Rightarrow> nat" where
  "copies b es = length (filter (is_copy b) es)"

definition drops :: "nat \<Rightarrow> event list \<Rightarrow> nat" where
  "drops b es = length (filter (is_drop b) es)"

definition releases :: "nat \<Rightarrow> event list \<Rightarrow> outcome list \<Rightarrow> nat" where
  "releases b es outs = length (filter (is_release b) (zip es outs))"

text \<open>
  The bookkeeping of a run: a block that exists has as many owners as the one made by
  \<open>acquire\<close> plus the copies minus the destroyed ones, and its deleter has run once
  if no owner is left and not at all otherwise; of a block that does not exist yet
  nothing was copied, destroyed or released.
\<close>

definition rel_inv :: "event list \<Rightarrow> outcome list \<Rightarrow> sys \<Rightarrow> bool" where
  "rel_inv es outs s \<longleftrightarrow>
     (\<forall>b. if b < length (blocks s)
          then snd (blocks s ! b) + drops b es = Suc (copies b es) \<and>
               releases b es outs = (if snd (blocks s ! b) = 0 then 1 else 0)
          else copies b es = 0 \<and> drops b es = 0 \<and> releases b es outs = 0)"

subsection \<open>A server for the examples\<close>

text \<open>A server that accepts two connections and refuses every further one.\<close>

definition mk2 :: connector where
  "mk2 cs i = (if i < 2 then Inr (10 + i) else Inl (pqxx_failure ''too many clients''))"

definition w0 :: server where
  "w0 = \<lparr>attempts = 0, opened = [], closed = []\<rparr>"

text \<open>The pool of size 2 that this server yields, and the server after its construction.\<close>

definition p2 :: PgPool where
  "p2 = \<lparr>connectionString = ''db'', poolSize = 2, pool = [10, 11], stop = False\<rparr>"

definition w2 :: server where
  "w2 = \<lparr>attempts = 2, opened = [10, 11], closed = []\<rparr>"

text \<open>
  States of that pool: both connections out and two threads parked; the same after
  the destructor; and that state after one of the two threads has come back.
\<close>

definition s_full :: sys where
  "s_full = \<lparr>obj = p2\<lparr>pool := []\<rparr>, srv = w2, blocks = [(10, 1), (11, 1)],
              waiting = [2, 3], woken = []\<rparr>"

definition s_down :: sys where
  "s_down = \<lparr>obj = p2\<lparr>pool := [], stop := True\<rparr>, srv = w2, blocks = [(10, 1), (11, 1)],
              waiting = [], woken = [2, 3]\<rparr>"

definition s_gone :: sys where
  "s_gone = \<lparr>obj = p2\<lparr>pool := [], stop := True\<rparr>, srv = w2, blocks = [(10, 1), (11, 1)],
              waiting = [], woken = [2]\<rparr>"

text \<open>
  The state after one connection was acquired, the destructor ran (closing the idle
  connection) and the last owner of the acquired one was destroyed.
\<close>

definition s_back :: sys where
  "s_back = \<lparr>obj = p2\<lparr>pool := [], stop := True\<rparr>, srv = w2\<lparr>closed := [11]\<rparr>,
              blocks = [(10, 0)], waiting = [], woken = []\<rparr>"


definition s_one :: sys where
  "s_one = \<lparr>obj = p2\<lparr>pool := [11]\<rparr>, srv = w2, blocks = [(10, 0)], waiting = [], woken = []\<rparr>"

text \<open>
  States of that pool after the first connection was acquired: with two owners, with
  one owner, and with none (the connection back at the end of the queue).
\<close>

definition s_two :: sys where
  "s_two = \<lparr>obj = p2\<lparr>pool := [11]\<rparr>, srv = w2, blocks = [(10, 2)], waiting = [], woken = []\<rparr>"

definition s_own :: sys where
  "s_own = \<lparr>obj = p2\<lparr>pool := [11]\<rparr>, srv = w2, blocks = [(10, 1)], waiting = [], woken = []\<rparr>"

definition s_none :: sys where
  "s_none = \<lparr>obj = p2\<lparr>pool := [11, 10]\<rparr>, srv = w2, blocks = [(10, 0)], waiting = [],
              woken = []\<rparr>"

text \<open>
  The pool of size 0, and its state after two threads were parked, the destructor ran
  and one of the two came back from \<open>wait\<close>.
\<close>

definition p0 :: PgPool where
  "p0 = \<lparr>connectionString = ''db'', poolSize = 0, pool = [], stop = False\<rparr>"

definition s_zero :: sys where
  "s_zero = \<lparr>obj = p0\<lparr>stop := True\<rparr>, srv = w0, blocks = [], waiting = [], woken = [1]\<rparr>"

declare ctor_loop.simps [simp del]

section \<open>Auxiliary facts\<close>

subsection \<open>The constructor loop\<close>

lemma ctor_loop_ok:
  "length ds = poolSize this - i \<Longrightarrow>
   (\<forall>j<length ds. mk (connectionString this) (attempts w + j) = Inr (ds ! j)) \<Longrightarrow>
   ctor_loop mk i this w =
     (Inr (this\<lparr>pool := pool this @ ds\<rparr>),
      w\<lparr>attempts := attempts w + length ds, opened := opened w @ ds\<rparr>)"
proof (induction ds arbitrary: i this w)
  case Nil
  then show ?case by (simp add: ctor_loop.simps [of mk i this w])
next
  case (Cons d ds)
  let ?p1 = "this\<lparr>pool := pool this @ [d]\<rparr>"
  let ?w1 = "w\<lparr>attempts := Suc (attempts w), opened := opened w @ [d]\<rparr>"
  from Cons.prems have lt: "i < poolSize this" by simp
  from Cons.prems have hd: "mk (connectionString this) (attempts w) = Inr d" by force
  have len: "length ds = poolSize ?p1 - Suc i" using Cons.prems by simp
  have rest: "\<forall>j<length ds. mk (connectionString ?p1) (attempts ?w1 + j) = Inr (ds ! j)"
  proof (intro allI impI)
    fix j assume "j < length ds"
    then have "mk (connectionString this) (attempts w + Suc j) = Inr ((d # ds) ! Suc j)"
      using Cons.prems(2) by (metis Suc_less_eq length_Cons)
    then show "mk (connectionString ?p1) (attempts ?w1 + j) = Inr (ds ! j)" by simp
  qed
  have "ctor_loop mk i this w = ctor_loop mk (Suc i) ?p1 ?w1"
    using lt hd by (simp add: ctor_loop.simps [of mk i this w] createConnection_def make_unique_def)
  also have "\<dots> = (Inr (?p1\<lparr>pool := pool ?p1 @ ds\<rparr>),
      ?w1\<lparr>attempts := attempts ?w1 + length ds, opened := opened ?w1 @ ds\<rparr>)"
    by (rule Cons.IH [OF len rest])
  finally show ?case by simp
qed

lemma ctor_loop_fail:
  "length ds < poolSize this - i \<Longrightarrow>
   (\<forall>j<length ds. mk (connectionString this) (attempts w + j) = Inr (ds ! j)) \<Longrightarrow>
   mk (connectionString this) (attempts w + length ds) = Inl e \<Longrightarrow>
   ctor_loop mk i this w =
     (Inl e, w\<lparr>attempts := Suc (attempts w + length ds), opened := opened w @ ds,
               closed := closed w @ pool this @ ds\<rparr>)"
proof (induction ds arbitrary: i this w)
  case Nil
  then show ?case
    by (simp add: ctor_loop.simps [of mk i this w] createConnection_def make_unique_def)
next
  case (Cons d ds)
  let ?p1 = "this\<lparr>pool := pool this @ [d]\<rparr>"
  let ?w1 = "w\<lparr>attempts := Suc (attempts w), opened := opened w @ [d]\<rparr>"
  from Cons.prems have lt: "i < poolSize this" by simp
  from Cons.prems have hd: "mk (connectionString this) (attempts w) = Inr d" by force
  have len: "length ds < poolSize ?p1 - Suc i" using Cons.prems by simp
  have rest: "\<forall>j<length ds. mk (connectionString ?p1) (attempts ?w1 + j) = Inr (ds ! j)"
  proof (intro allI impI)
    fix j assume "j < length ds"
    then have "mk (connectionString this) (attempts w + Suc j) = Inr ((d # ds) ! Suc j)"
      using Cons.prems(2) by (metis Suc_less_eq length_Cons)
    then show "mk (connectionString ?p1) (attempts ?w1 + j) = Inr (ds ! j)" by simp
  qed
  have bad: "mk (connectionString ?p1) (attempts ?w1 + length ds) = Inl e"
    using Cons.prems(3) by simp
  have "ctor_loop mk i this w = ctor_loop mk (Suc i) ?p1 ?w1"
    using lt hd by (simp add: ctor_loop.simps [of mk i this w] createConnection_def make_unique_def)
  also have "\<dots> = (Inl e, ?w1\<lparr>attempts := Suc (attempts ?w1 + length ds), opened := opened ?w1 @ ds,
               closed := closed ?w1 @ pool ?p1 @ ds\<rparr>)"
    by (rule Cons.IH [OF len rest bad])
  finally show ?case by simp
qed


lemma ctor_loop_Inr:
  "ctor_loop mk i this w = (Inr p, w') \<Longrightarrow>
   \<exists>ds. length ds = poolSize this - i \<and> p = this\<lparr>pool := pool this @ ds\<rparr> \<and>
        w' = w\<lparr>attempts := attempts w + length ds, opened := opened w @ ds\<rparr> \<and>
        (\<forall>j<length ds. mk (connectionString this) (attempts w + j) = Inr (ds ! j))"
proof (induction mk i this w rule: ctor_loop.induct)
  case (1 mk i this w)
  show ?case
  proof (cases "i < poolSize this")
    case False
    with "1.prems" have "p = this" "w' = w"
      by (simp_all add: ctor_loop.simps [of mk i this w])
    with False show ?thesis by (intro exI [of _ "[]"]) simp
  next
    case True
    show ?thesis
    proof (cases "mk (connectionString this) (attempts w)")
      case (Inl e)
      with True "1.prems" show ?thesis
        by (simp add: ctor_loop.simps [of mk i this w] createConnection_def make_unique_def)
    next
      case (Inr d)
      let ?p1 = "this\<lparr>pool := pool this @ [d]\<rparr>"
      let ?w1 = "w\<lparr>attempts := Suc (attempts w), opened := opened w @ [d]\<rparr>"
      have cc: "createConnection mk this w = (Inr d, ?w1)"
        using Inr by (simp add: createConnection_def make_unique_def)
      have "ctor_loop mk (Suc i) ?p1 ?w1 = (Inr p, w')"
        using True cc "1.prems" by (simp add: ctor_loop.simps [of mk i this w])
      from "1.IH" [OF True cc [symmetric] refl this]
      obtain ds where ds: "length ds = poolSize ?p1 - Suc i" "p = ?p1\<lparr>pool := pool ?p1 @ ds\<rparr>"
        "w' = ?w1\<lparr>attempts := attempts ?w1 + length ds, opened := opened ?w1 @ ds\<rparr>"
        "\<forall>j<length ds. mk (connectionString ?p1) (attempts ?w1 + j) = Inr (ds ! j)"
        by blast
      have "\<forall>j<length (d # ds). mk (connectionString this) (attempts w + j) = Inr ((d # ds) ! j)"
      proof (intro allI impI)
        fix j assume j: "j < length (d # ds)"
        show "mk (connectionString this) (attempts w + j) = Inr ((d # ds) ! j)"
        proof (cases j)
          case 0 with Inr show ?thesis by simp
        next
          case (Suc j')
          with j ds(4) show ?thesis by simp
        qed
      qed
      with ds True show ?thesis by (intro exI [of _ "d # ds"]) simp
    qed
  qed
qed

lemma PgPool_ctor_Inr:
  assumes "PgPool_ctor mk cs n w = (Inr p, w')"
  shows "connectionString p = cs" "poolSize p = n" "length (pool p) = n" "\<not> stop p"
    "attempts w' = attempts w + n" "opened w' = opened w @ pool p" "closed w' = closed w"
    "\<forall>j<n. mk cs (attempts w + j) = Inr (pool p ! j)"
proof -
  let ?p0 = "\<lparr>connectionString = cs, poolSize = n, pool = [], stop = False\<rparr>"
  from assms have "ctor_loop mk 0 ?p0 w = (Inr p, w')" by (simp add: PgPool_ctor_def)
  from ctor_loop_Inr [OF this]
  obtain ds' where ds': "length ds' = n" "p = ?p0\<lparr>pool := ds'\<rparr>"
      "w' = w\<lparr>attempts := attempts w + length ds', opened := opened w @ ds'\<rparr>"
      "\<forall>j<length ds'. mk cs (attempts w + j) = Inr (ds' ! j)"
    by auto
  then show "connectionString p = cs" "poolSize p = n" "length (pool p) = n" "\<not> stop p"
      "attempts w' = attempts w + n" "opened w' = opened w @ pool p" "closed w' = closed w"
      "\<forall>j<n. mk cs (attempts w + j) = Inr (pool p ! j)"
    by simp_all
qed

subsection \<open>Fields after each operation\<close>

lemma notify_one_fields [simp]:
  "obj (notify_one k s) = obj s" "srv (notify_one k s) = srv s"
  "blocks (notify_one k s) = blocks s"
  by (simp_all add: notify_one_def Let_def)

lemma notify_all_fields [simp]:
  "obj (notify_all s) = obj s" "srv (notify_all s) = srv s"
  "blocks (notify_all s) = blocks s" "waiting (notify_all s) = []"
  "woken (notify_all s) = woken s @ waiting s"
  by (simp_all add: notify_all_def)

lemma returnConnection_fields [simp]:
  "obj (returnConnection k c s) = (obj s)\<lparr>pool := pool (obj s) @ [c]\<rparr>"
  "srv (returnConnection k c s) = srv s"
  "blocks (returnConnection k c s) = blocks s"
  by (simp_all add: returnConnection_def)

lemma drain_eq: "drain q w = ([], w\<lparr>closed := closed w @ q\<rparr>)"
  by (induction q arbitrary: w) simp_all

lemma PgPool_dtor_eq:
  "PgPool_dtor s =
     s\<lparr>obj := (obj s)\<lparr>pool := [], stop := True\<rparr>,
       srv := (srv s)\<lparr>closed := closed (srv s) @ pool (obj s)\<rparr>,
       waiting := [], woken := woken s @ waiting s\<rparr>"
  by (simp add: PgPool_dtor_def notify_all_def drain_eq)

lemma filter_update_count:
  "b < length xs \<Longrightarrow>
   length (filter P (xs[b := y])) + (if P (xs ! b) then 1 else 0) =
   length (filter P xs) + (if P y then 1 else 0)"
proof (induction xs arbitrary: b)
  case Nil
  then show ?case by simp
next
  case (Cons x xs)
  then show ?case by (cases b) auto
qed

lemma checked_out_update:
  "b < length (blocks s) \<Longrightarrow> 0 < snd (blocks s ! b) \<Longrightarrow>
   checked_out (s\<lparr>blocks := (blocks s)[b := (c, n)]\<rparr>) + 1 =
   checked_out s + (if 0 < n then 1 else 0)"
  using filter_update_count [of b "blocks s" "\<lambda>(c, n). 0 < n" "(c, n)"]
  by (simp add: checked_out_def case_prod_beta)

lemma checked_out_cong [simp]:
  "checked_out (notify_one k s) = checked_out s"
  "checked_out (returnConnection k c s) = checked_out s"
  "checked_out (s\<lparr>waiting := ws\<rparr>) = checked_out s"
  "checked_out (s\<lparr>woken := vs\<rparr>) = checked_out s"
  "checked_out (s\<lparr>obj := p\<rparr>) = checked_out s"
  by (simp_all add: checked_out_def)

lemma step_balance:
  assumes "step s e = Some (out, s')" and "e \<noteq> Destroy" and "\<not> stop (obj s)"
  shows "length (pool (obj s')) + checked_out s' = length (pool (obj s)) + checked_out s"
    and "poolSize (obj s') = poolSize (obj s)" and "stop (obj s') = stop (obj s)"
    and "connectionString (obj s') = connectionString (obj s)" and "srv s' = srv s"
proof -
  show "length (pool (obj s')) + checked_out s' = length (pool (obj s)) + checked_out s"
  proof (cases e)
    case (Acquire t)
    with assms show ?thesis
      by (auto simp: acquire_def Let_def checked_out_def split: if_splits)
  next
    case (Resume t)
    with assms show ?thesis
      by (auto simp: acquire_def Let_def checked_out_def split: if_splits)
  next
    case (Spurious t)
    with assms show ?thesis by (auto split: if_splits)
  next
    case (Copy b)
    with assms show ?thesis
      using checked_out_update [of b s "fst (blocks s ! b)" "Suc (snd (blocks s ! b))"]
      by (auto simp: copy_ref_def split: if_splits)
  next
    case (Drop b k)
    with assms show ?thesis
      using checked_out_update [of b s "fst (blocks s ! b)" "snd (blocks s ! b) - 1"]
      by (auto simp: drop_ref_def Let_def split: if_splits)
  next
    case Destroy
    with assms show ?thesis by simp
  qed
  show "poolSize (obj s') = poolSize (obj s)"
    using assms
    by (cases e) (auto simp: acquire_def copy_ref_def drop_ref_def Let_def split: if_splits)
  show "stop (obj s') = stop (obj s)"
    using assms
    by (cases e) (auto simp: acquire_def copy_ref_def drop_ref_def Let_def split: if_splits)
  show "connectionString (obj s') = connectionString (obj s)"
    using assms
    by (cases e) (auto simp: acquire_def copy_ref_def drop_ref_def Let_def split: if_splits)
  show "srv s' = srv s"
    using assms
    by (cases e) (auto simp: acquire_def copy_ref_def drop_ref_def Let_def split: if_splits)
qed

lemma exec_append:
  "exec s (es @ fs) =
     (case exec s es of
        None \<Rightarrow> None
      | Some (outs, s') \<Rightarrow>
          (case exec s' fs of None \<Rightarrow> None | Some (outs', s'') \<Rightarrow> Some (outs @ outs', s'')))"
  by (induction es arbitrary: s) (auto split: option.splits)

lemma exec_snoc:
  "exec s (es @ [e]) = Some (outs', s'') \<longleftrightarrow>
     (\<exists>outs s' out. exec s es = Some (outs, s') \<and> step s' e = Some (out, s'') \<and>
        outs' = outs @ [out])"
  by (auto simp: exec_append split: option.splits)

lemma exec_length: "exec s es = Some (outs, s') \<Longrightarrow> length outs = length es"
  by (induction es arbitrary: s outs) (auto split: option.splits)

lemma exec_take:
  assumes "exec s es = Some (outs, s')"
  shows "\<exists>s1. exec s (take i es) = Some (take i outs, s1)"
proof -
  from assms have "exec s (take i es @ drop i es) = Some (outs, s')" by simp
  then obtain outs1 s1 outs2 where a: "exec s (take i es) = Some (outs1, s1)"
    and b: "outs = outs1 @ outs2"
    unfolding exec_append by (auto split: option.splits)
  from exec_length [OF a] have "length outs1 = length (take i es)" .
  moreover from exec_length [OF assms] have "length outs = length es" .
  ultimately have "take i outs = outs1" using b by (simp add: min_def split: if_splits)
  with a show ?thesis by blast
qed

lemma exec_balance:
  "exec s es = Some (outs, s') \<Longrightarrow> Destroy \<notin> set es \<Longrightarrow> \<not> stop (obj s) \<Longrightarrow>
   length (pool (obj s')) + checked_out s' = length (pool (obj s)) + checked_out s \<and>
   poolSize (obj s') = poolSize (obj s) \<and> stop (obj s') = stop (obj s) \<and>
   connectionString (obj s') = connectionString (obj s) \<and> srv s' = srv s"
proof (induction es arbitrary: s outs)
  case Nil
  then show ?case by simp
next
  case (Cons e es)
  from Cons.prems obtain out s1 outs1 where
    st: "step s e = Some (out, s1)" and ex: "exec s1 es = Some (outs1, s')"
    by (auto split: option.splits)
  from Cons.prems have ne: "e \<noteq> Destroy" and rest: "Destroy \<notin> set es" by auto
  note h = step_balance [OF st ne Cons.prems(3)]
  from h(3) Cons.prems(3) have ns: "\<not> stop (obj s1)" by simp
  show ?case
    using h Cons.IH [OF ex rest ns] by simp
qed

lemma releases_snoc:
  "length es = length outs \<Longrightarrow>
   releases b (es @ [e]) (outs @ [out]) =
     releases b es outs + (if is_release b (e, out) then 1 else 0)"
  by (simp add: releases_def)

lemma copies_snoc: "copies b (es @ [e]) = copies b es + (if is_copy b e then 1 else 0)"
  by (simp add: copies_def)

lemma drops_snoc: "drops b (es @ [e]) = drops b es + (if is_drop b e then 1 else 0)"
  by (simp add: drops_def)

lemma step_blocks:
  assumes "step s e = Some (out, s')" and "\<not> stop (obj s)"
  shows "(\<exists>b k c. e = Drop b k \<and> b < length (blocks s) \<and> blocks s ! b = (c, Suc 0) \<and>
            out = Released c \<and> blocks s' = (blocks s)[b := (c, 0)])
       \<or> (\<exists>b k c n. e = Drop b k \<and> b < length (blocks s) \<and> blocks s ! b = (c, Suc (Suc n)) \<and>
            out = Done \<and> blocks s' = (blocks s)[b := (c, Suc n)])
       \<or> (\<exists>b c n. e = Copy b \<and> b < length (blocks s) \<and> blocks s ! b = (c, Suc n) \<and>
            out = Done \<and> blocks s' = (blocks s)[b := (c, Suc (Suc n))])
       \<or> ((\<forall>b k. e \<noteq> Drop b k) \<and> (\<forall>b. e \<noteq> Copy b) \<and> (\<forall>c. out \<noteq> Released c) \<and>
           (blocks s' = blocks s \<or> (\<exists>c. blocks s' = blocks s @ [(c, Suc 0)])))"
proof (cases e)
  case (Acquire t)
  with assms show ?thesis by (auto simp: acquire_def Let_def split: if_splits)
next
  case (Resume t)
  with assms show ?thesis by (auto simp: acquire_def Let_def split: if_splits)
next
  case (Spurious t)
  with assms show ?thesis by (auto split: if_splits)
next
  case (Copy b)
  obtain c m where cm: "blocks s ! b = (c, m)" by (cases "blocks s ! b")
  with Copy assms have "0 < m" by (auto simp: copy_ref_def split: if_splits)
  then obtain n where "m = Suc n" by (cases m) auto
  with Copy assms cm show ?thesis by (auto simp: copy_ref_def split: if_splits)
next
  case (Drop b k)
  obtain c m where cm: "blocks s ! b = (c, m)" by (cases "blocks s ! b")
  with Drop assms have "0 < m" by (auto simp: drop_ref_def split: if_splits)
  then obtain n where m: "m = Suc n" by (cases m) auto
  show ?thesis
  proof (cases n)
    case 0
    with Drop assms cm m show ?thesis by (auto simp: drop_ref_def Let_def split: if_splits)
  next
    case (Suc n')
    with Drop assms cm m show ?thesis by (auto simp: drop_ref_def Let_def split: if_splits)
  qed
next
  case Destroy
  with assms show ?thesis by (auto simp: PgPool_dtor_eq split: if_splits)
qed

lemma rel_inv_step:
  assumes inv: "rel_inv es outs s" and len: "length es = length outs"
    and st: "step s e = Some (out, s')" and ns: "\<not> stop (obj s)"
  shows "rel_inv (es @ [e]) (outs @ [out]) s'"
  unfolding rel_inv_def
proof (intro allI)
  fix b
  let ?goal = "if b < length (blocks s')
          then snd (blocks s' ! b) + drops b (es @ [e]) = Suc (copies b (es @ [e])) \<and>
               releases b (es @ [e]) (outs @ [out]) = (if snd (blocks s' ! b) = 0 then 1 else 0)
          else copies b (es @ [e]) = 0 \<and> drops b (es @ [e]) = 0 \<and>
               releases b (es @ [e]) (outs @ [out]) = 0"
  have old: "if b < length (blocks s)
          then snd (blocks s ! b) + drops b es = Suc (copies b es) \<and>
               releases b es outs = (if snd (blocks s ! b) = 0 then 1 else 0)
          else copies b es = 0 \<and> drops b es = 0 \<and> releases b es outs = 0"
    using inv by (simp add: rel_inv_def)
  note snoc = releases_snoc [OF len, of b e out] copies_snoc [of b es e] drops_snoc [of b es e]
  from step_blocks [OF st ns]
  show ?goal
  proof (elim disjE exE conjE)
    fix b' k c
    assume "e = Drop b' k" "b' < length (blocks s)" "blocks s ! b' = (c, Suc 0)"
      "out = Released c" "blocks s' = (blocks s)[b' := (c, 0)]"
    then show ?goal using old snoc by (cases "b = b'") (auto split: if_splits)
  next
    fix b' k c n
    assume "e = Drop b' k" "b' < length (blocks s)" "blocks s ! b' = (c, Suc (Suc n))"
      "out = Done" "blocks s' = (blocks s)[b' := (c, Suc n)]"
    then show ?goal using old snoc by (cases "b = b'") (auto split: if_splits)
  next
    fix b' c n
    assume "e = Copy b'" "b' < length (blocks s)" "blocks s ! b' = (c, Suc n)"
      "out = Done" "blocks s' = (blocks s)[b' := (c, Suc (Suc n))]"
    then show ?goal using old snoc by (cases "b = b'") (auto split: if_splits)
  next
    assume a: "\<forall>b k. e \<noteq> Drop b k" "\<forall>b. e \<noteq> Copy b" "\<forall>c. out \<noteq> Released c"
      and bl: "blocks s' = blocks s"
    from a have nr: "\<not> is_release b (e, out)" "\<not> is_copy b e" "\<not> is_drop b e"
      by (cases e; cases out; auto)+
    from bl show ?goal using old snoc nr by simp
  next
    fix c
    assume a: "\<forall>b k. e \<noteq> Drop b k" "\<forall>b. e \<noteq> Copy b" "\<forall>c. out \<noteq> Released c"
      and bl: "blocks s' = blocks s @ [(c, Suc 0)]"
    from a have nr: "\<not> is_release b (e, out)" "\<not> is_copy b e" "\<not> is_drop b e"
      by (cases e; cases out; auto)+
    from bl show ?goal using old snoc nr
      by (auto simp: nth_append less_Suc_eq split: if_splits)
  qed
qed

lemma rel_inv_exec:
  "exec s0 es = Some (outs, s) \<Longrightarrow> blocks s0 = [] \<Longrightarrow> \<not> stop (obj s0) \<Longrightarrow>
   Destroy \<notin> set es \<Longrightarrow> rel_inv es outs s"
proof (induction es arbitrary: outs s rule: rev_induct)
  case Nil
  then show ?case by (simp add: rel_inv_def releases_def copies_def drops_def)
next
  case (snoc e es)
  from snoc.prems(1) obtain outs1 s1 out where
    ex: "exec s0 es = Some (outs1, s1)" and st: "step s1 e = Some (out, s)"
    and o: "outs = outs1 @ [out]"
    unfolding exec_snoc by blast
  from snoc.prems(4) have nd: "Destroy \<notin> set es" by simp
  have "rel_inv es outs1 s1" by (rule snoc.IH [OF ex snoc.prems(2,3) nd])
  moreover have "length es = length outs1" using exec_length [OF ex] by simp
  moreover have "\<not> stop (obj s1)" using exec_balance [OF ex nd snoc.prems(3)] snoc.prems(3) by simp
  ultimately show ?case using rel_inv_step st o by blast
qed

subsection \<open>Example runs\<close>

lemmas run_defs = init_def p2_def w2_def acquire_def copy_ref_def drop_ref_def
  returnConnection_def notify_one_def PgPool_dtor_eq PoolShuttingDown_def Let_def

lemma ctor_p2: "PgPool_ctor mk2 ''db'' 2 w0 = (Inr p2, w2)"
  using ctor_loop_ok [of "[10, 11]" "\<lparr>connectionString = ''db'', poolSize = 2, pool = [], stop = False\<rparr>" 0 mk2 w0]
  by (simp add: PgPool_ctor_def mk2_def w0_def p2_def w2_def less_Suc_eq numeral_2_eq_2)

lemma run_shared2:
  "exec (init p2 w2) [Acquire 0, Copy 0] = Some ([Got 0 10, Done], s_two)"
  by (simp add: run_defs s_two_def)

lemma run_shared1:
  "exec (init p2 w2) [Acquire 0, Copy 0, Drop 0 0] = Some ([Got 0 10, Done, Done], s_own)"
  by (simp add: run_defs s_own_def)

lemma run_shared0:
  "exec (init p2 w2) [Acquire 0, Copy 0, Drop 0 0, Drop 0 0] =
     Some ([Got 0 10, Done, Done, Released 10], s_none)"
  by (simp add: run_defs s_none_def)

lemma run_mixed:
  "exec (init p2 w2) [Acquire 0, Copy 0, Acquire 1, Drop 0 0, Acquire 2, Drop 0 1, Resume 2] =
     Some ([Got 0 10, Done, Got 1 11, Done, Blocked, Released 10, Got 2 10],
           \<lparr>obj = p2\<lparr>pool := []\<rparr>, srv = w2, blocks = [(10, 0), (11, 1), (10, 1)],
              waiting = [], woken = []\<rparr>)"
  by (simp add: run_defs)

lemma run_full:
  "exec (init p2 w2) [Acquire 0, Acquire 1, Acquire 2, Acquire 3] =
     Some ([Got 0 10, Got 1 11, Blocked, Blocked], s_full)"
  by (simp add: run_defs s_full_def)

lemma step_down: "step s_full Destroy = Some (Done, s_down)"
  by (simp add: run_defs s_full_def s_down_def)

lemma run_gone: "exec s_down [Resume 3] = Some ([Undefined], s_gone)"
  by (simp add: run_defs s_down_def s_gone_def)

subsection \<open>Successive calls of acquire\<close>

lemma acquire_front:
  "\<not> stop (obj s) \<Longrightarrow> pool (obj s) = c # q \<Longrightarrow>
   acquire t s = (Got (length (blocks s)) c,
                  s\<lparr>obj := (obj s)\<lparr>pool := q\<rparr>, blocks := blocks s @ [(c, 1)]\<rparr>)"
  by (simp add: acquire_def)

lemma acquire_empty:
  "\<not> stop (obj s) \<Longrightarrow> pool (obj s) = [] \<Longrightarrow>
   acquire t s = (Blocked, s\<lparr>waiting := waiting s @ [t]\<rparr>)"
  by (simp add: acquire_def)

lemma exec_acquires:
  "\<not> stop (obj s) \<Longrightarrow> length ts \<le> length (pool (obj s)) \<Longrightarrow>
   \<forall>t\<in>set ts. t \<notin> set (waiting s) \<and> t \<notin> set (woken s) \<Longrightarrow>
   exec s (map Acquire ts) =
     Some (map (\<lambda>i. Got (length (blocks s) + i) (pool (obj s) ! i)) [0..<length ts],
           s\<lparr>obj := (obj s)\<lparr>pool := drop (length ts) (pool (obj s))\<rparr>,
             blocks := blocks s @ map (\<lambda>c. (c, 1)) (take (length ts) (pool (obj s)))\<rparr>)"
proof (induction ts arbitrary: s)
  case Nil
  then show ?case by simp
next
  case (Cons t ts)
  from Cons.prems(2) obtain c q where cq: "pool (obj s) = c # q"
    by (cases "pool (obj s)") auto
  let ?s1 = "s\<lparr>obj := (obj s)\<lparr>pool := q\<rparr>, blocks := blocks s @ [(c, 1)]\<rparr>"
  have st: "step s (Acquire t) = Some (Got (length (blocks s)) c, ?s1)"
    using Cons.prems(1,3) cq by (simp add: acquire_front)
  have "exec ?s1 (map Acquire ts) =
     Some (map (\<lambda>i. Got (length (blocks ?s1) + i) (pool (obj ?s1) ! i)) [0..<length ts],
           ?s1\<lparr>obj := (obj ?s1)\<lparr>pool := drop (length ts) (pool (obj ?s1))\<rparr>,
             blocks := blocks ?s1 @ map (\<lambda>c. (c, 1)) (take (length ts) (pool (obj ?s1)))\<rparr>)"
    using Cons.prems cq by (intro Cons.IH) simp_all
  with st cq show ?case
    by (simp add: map_upt_Suc del: upt_Suc)
qed


lemma notify_one_threads:
  "t \<notin> set (waiting s) \<Longrightarrow> t \<notin> set (woken s) \<Longrightarrow>
   t \<notin> set (waiting (notify_one k s)) \<and> t \<notin> set (woken (notify_one k s))"
proof (cases "waiting s = []")
  case True
  assume "t \<notin> set (waiting s)" "t \<notin> set (woken s)"
  with True show ?thesis by (simp add: notify_one_def)
next
  case False
  assume a: "t \<notin> set (waiting s)" "t \<notin> set (woken s)"
  let ?u = "waiting s ! (k mod length (waiting s))"
  from False have "?u \<in> set (waiting s)" by simp
  with a have "t \<noteq> ?u" by auto
  moreover from a have "t \<notin> set (remove1 ?u (waiting s))" by (auto dest: notin_set_remove1)
  ultimately show ?thesis using False a by (simp add: notify_one_def Let_def)
qed

subsection \<open>A pool without connections\<close>

lemma step_empty:
  assumes "step s e = Some (out, s')" and "pool (obj s) = []" and "blocks s = []"
  shows "pool (obj s') = [] \<and> blocks s' = [] \<and>
    (stop (obj s') \<longleftrightarrow> stop (obj s) \<or> e = Destroy) \<and>
    ((\<exists>t. e = Acquire t \<or> e = Resume t) \<longrightarrow>
         out = (if stop (obj s) then Undefined else Blocked))"
proof (cases e)
  case (Acquire t)
  with assms show ?thesis by (auto simp: acquire_def split: if_splits)
next
  case (Resume t)
  with assms show ?thesis by (auto simp: acquire_def split: if_splits)
next
  case (Spurious t)
  with assms show ?thesis by (auto split: if_splits)
next
  case (Copy b)
  with assms show ?thesis by (simp add: copy_ref_def)
next
  case (Drop b k)
  with assms show ?thesis by (simp add: drop_ref_def)
next
  case Destroy
  with assms show ?thesis by (auto simp: PgPool_dtor_eq split: if_splits)
qed

lemma exec_empty:
  "exec s es = Some (outs, s') \<Longrightarrow> pool (obj s) = [] \<Longrightarrow> blocks s = [] \<Longrightarrow>
   pool (obj s') = [] \<and> blocks s' = [] \<and>
   (stop (obj s') \<longleftrightarrow> stop (obj s) \<or> Destroy \<in> set es) \<and>
   (\<forall>i<length es. \<forall>t. es ! i = Acquire t \<or> es ! i = Resume t \<longrightarrow>
      outs ! i = (if stop (obj s) \<or> Destroy \<in> set (take i es)
                  then Undefined else Blocked))"
proof (induction es arbitrary: s outs)
  case Nil
  then show ?case by simp
next
  case (Cons e es)
  from Cons.prems(1) obtain out s1 outs1 where
    st: "step s e = Some (out, s1)" and ex: "exec s1 es = Some (outs1, s')"
    and o: "outs = out # outs1"
    by (auto split: option.splits)
  from step_empty [OF st Cons.prems(2,3)]
  have h: "pool (obj s1) = []" "blocks s1 = []" "stop (obj s1) \<longleftrightarrow> stop (obj s) \<or> e = Destroy"
    "(\<exists>t. e = Acquire t \<or> e = Resume t) \<longrightarrow>
         out = (if stop (obj s) then Undefined else Blocked)"
    by blast+
  note ih = Cons.IH [OF ex h(1,2)]
  have "\<forall>i<length (e # es). \<forall>t. (e # es) ! i = Acquire t \<or> (e # es) ! i = Resume t \<longrightarrow>
      outs ! i = (if stop (obj s) \<or> Destroy \<in> set (take i (e # es))
                  then Undefined else Blocked)"
  proof (intro allI impI)
    fix i t
    assume i: "i < length (e # es)"
      and a: "(e # es) ! i = Acquire t \<or> (e # es) ! i = Resume t"
    show "outs ! i = (if stop (obj s) \<or> Destroy \<in> set (take i (e # es))
                  then Undefined else Blocked)"
    proof (cases i)
      case 0
      with a h(4) o show ?thesis by auto
    next
      case (Suc j)
      from ih have all: "\<forall>i<length es. \<forall>t. es ! i = Acquire t \<or> es ! i = Resume t \<longrightarrow>
          outs1 ! i = (if stop (obj s1) \<or> Destroy \<in> set (take i es)
                  then Undefined else Blocked)"
        by blast
      from Suc i a have "j < length es" "es ! j = Acquire t \<or> es ! j = Resume t"
        by simp_all
      with all have "outs1 ! j = (if stop (obj s1) \<or> Destroy \<in> set (take j es)
                  then Undefined else Blocked)"
        by blast
      with Suc o h(3) show ?thesis by auto
    qed
  qed
  then show ?case using ih h(3) by auto
qed

lemma run_zero:
  "exec (init p0 w0) [Acquire 0, Spurious 0, Resume 0, Acquire 1, Destroy, Resume 0, Acquire 2] =
     Some ([Blocked, Done, Blocked, Blocked, Done, Undefined, Undefined], s_zero)"
  by (simp add: run_defs p0_def w0_def s_zero_def)

section \<open>Properties\<close>



text \<open>
  C7. The constructor makes one attempt after the other. If the first \<open>n\<close> attempts all
  succeed it yields the pool whose queue holds exactly these \<open>n\<close> connections, in the
  order of opening, after exactly \<open>n\<close> attempts. If an attempt fails after some
  successes, no later attempt is made, the error of that attempt is the result of the
  construction, and there is no pool value; the connections opened so far are closed.
  A construction that succeeds has opened exactly \<open>n\<close> connections.
\<close>

theorem PgPool_ctor_all_or_nothing:
  "(length ds = n \<and> (\<forall>j<n. mk cs (attempts w + j) = Inr (ds ! j)) \<longrightarrow>
      PgPool_ctor mk cs n w =
        (Inr \<lparr>connectionString = cs, poolSize = n, pool = ds, stop = False\<rparr>,
         w\<lparr>attempts := attempts w + n, opened := opened w @ ds\<rparr>))
   \<and> (length ds < n \<and> (\<forall>j<length ds. mk cs (attempts w + j) = Inr (ds ! j)) \<and>
        mk cs (attempts w + length ds) = Inl e \<longrightarrow>
      PgPool_ctor mk cs n w =
        (Inl e, w\<lparr>attempts := Suc (attempts w + length ds), opened := opened w @ ds,
                  closed := closed w @ ds\<rparr>))
   \<and> (PgPool_ctor mk cs n w = (Inr p, w') \<longrightarrow>
        connectionString p = cs \<and> poolSize p = n \<and> length (pool p) = n \<and> \<not> stop p \<and>
        attempts w' = attempts w + n \<and> opened w' = opened w @ pool p \<and> closed w' = closed w \<and>
        (\<forall>j<n. mk cs (attempts w + j) = Inr (pool p ! j)))"
proof (intro conjI impI)
  let ?p0 = "\<lparr>connectionString = cs, poolSize = n, pool = [], stop = False\<rparr>"
  {
    assume "length ds = n \<and> (\<forall>j<n. mk cs (attempts w + j) = Inr (ds ! j))"
    then show "PgPool_ctor mk cs n w =
        (Inr \<lparr>connectionString = cs, poolSize = n, pool = ds, stop = False\<rparr>,
         w\<lparr>attempts := attempts w + n, opened := opened w @ ds\<rparr>)"
      using ctor_loop_ok [of ds ?p0 0 mk w] by (simp add: PgPool_ctor_def)
  next
    assume "length ds < n \<and> (\<forall>j<length ds. mk cs (attempts w + j) = Inr (ds ! j)) \<and>
        mk cs (attempts w + length ds) = Inl e"
    then show "PgPool_ctor mk cs n w =
        (Inl e, w\<lparr>attempts := Suc (attempts w + length ds), opened := opened w @ ds,
                  closed := closed w @ ds\<rparr>)"
      using ctor_loop_fail [of ds ?p0 0 mk w e] by (simp add: PgPool_ctor_def)
  next
    assume "PgPool_ctor mk cs n w = (Inr p, w')"
    then show "connectionString p = cs" "poolSize p = n" "length (pool p) = n" "\<not> stop p"
        "attempts w' = attempts w + n" "opened w' = opened w @ pool p" "closed w' = closed w"
        "\<forall>j<n. mk cs (attempts w + j) = Inr (pool p ! j)"
      by (rule PgPool_ctor_Inr)+
  }
qed

theorem PgPool_ctor_all_or_nothing_witness:
  "PgPool_ctor mk2 ''db'' 2 w0 =
     (Inr \<lparr>connectionString = ''db'', poolSize = 2, pool = [10, 11], stop = False\<rparr>,
      \<lparr>attempts = 2, opened = [10, 11], closed = []\<rparr>)
   \<and> PgPool_ctor mk2 ''db'' 3 w0 =
     (Inl (pqxx_failure ''too many clients''),
      \<lparr>attempts = 3, opened = [10, 11], closed = [10, 11]\<rparr>)"
proof -
  let ?e = "pqxx_failure ''too many clients''"
  have a: "length [10, 11 :: nat] = 2 \<and>
      (\<forall>j<2. mk2 ''db'' (attempts w0 + j) = Inr ([10, 11] ! j))"
    by (simp add: mk2_def w0_def less_Suc_eq numeral_2_eq_2)
  have b: "length [10, 11 :: nat] < 3 \<and>
      (\<forall>j<length [10, 11 :: nat]. mk2 ''db'' (attempts w0 + j) = Inr ([10, 11] ! j)) \<and>
      mk2 ''db'' (attempts w0 + length [10, 11 :: nat]) = Inl ?e"
    by (simp add: mk2_def w0_def less_Suc_eq numeral_2_eq_2)
  have r1: "PgPool_ctor mk2 ''db'' 2 w0 =
        (Inr \<lparr>connectionString = ''db'', poolSize = 2, pool = [10, 11], stop = False\<rparr>,
         w0\<lparr>attempts := attempts w0 + 2, opened := opened w0 @ [10, 11]\<rparr>)"
    using PgPool_ctor_all_or_nothing [of "[10, 11]" 2 mk2 "''db''" w0 ?e] a by blast
  have r2: "PgPool_ctor mk2 ''db'' 3 w0 =
        (Inl ?e, w0\<lparr>attempts := Suc (attempts w0 + length [10, 11 :: nat]),
                    opened := opened w0 @ [10, 11], closed := closed w0 @ [10, 11]\<rparr>)"
    using PgPool_ctor_all_or_nothing [of "[10, 11]" 3 mk2 "''db''" w0 ?e] b by blast
  show ?thesis
    unfolding r1 r2 by (simp add: w0_def)
qed

text \<open>
  C1. For a pool that was constructed and not yet destroyed, and for every control
  block \<open>b\<close> that \<open>acquire\<close> has created in a run: the use count is the one owner made by
  \<open>acquire\<close> plus the copies made minus the owners destroyed; the deleter (the call of
  \<open>returnConnection\<close>) has run once if no owner is left and not at all if one is left,
  and where it ran, it ran in the destruction that brought the number of destroyed
  owners up to the number of owners made. A copy adds an owner. Destroying an owner
  while another one is left only takes one from the count: with two owners, one copied
  from the other, destroying one leaves the state as it was before the copy, nothing
  is put into the queue. Destroying the last owner runs \<open>returnConnection\<close>, which
  appends the connection to the queue. A block without owners admits no further
  destruction or copy, so the deleter cannot run a second time.
\<close>

theorem release_exactly_once:
  assumes "PgPool_ctor mk cs m w = (Inr p, w')"
    and "exec (init p w') es = Some (outs, s)" and "Destroy \<notin> set es"
    and "b < length (blocks s)" and "blocks s ! b = (c, n)"
  shows "n + drops b es = Suc (copies b es)
    \<and> releases b es outs = (if n = 0 then 1 else 0)
    \<and> (\<forall>i<length es. is_release b (es ! i, outs ! i) \<longrightarrow>
          drops b (take (Suc i) es) = Suc (copies b (take (Suc i) es)))
    \<and> (0 < n \<longrightarrow>
         step s (Copy b) = Some (Done, s\<lparr>blocks := (blocks s)[b := (c, Suc n)]\<rparr>))
    \<and> (1 < n \<longrightarrow>
         step s (Drop b k) = Some (Done, s\<lparr>blocks := (blocks s)[b := (c, n - 1)]\<rparr>))
    \<and> (n = 1 \<longrightarrow>
         exec s [Copy b, Drop b k] = Some ([Done, Done], s) \<and>
         step s (Drop b k) =
           Some (Released c, returnConnection k c (s\<lparr>blocks := (blocks s)[b := (c, 0)]\<rparr>)) \<and>
         pool (obj (returnConnection k c (s\<lparr>blocks := (blocks s)[b := (c, 0)]\<rparr>))) =
           pool (obj s) @ [c])
    \<and> (n = 0 \<longrightarrow> step s (Drop b k) = None \<and> step s (Copy b) = None)"
proof -
  have ns0: "\<not> stop (obj (init p w'))" and bl0: "blocks (init p w') = []"
    using PgPool_ctor_Inr(4) [OF assms(1)] by (simp_all add: init_def)
  have ns: "\<not> stop (obj s)"
    using exec_balance [OF assms(2,3) ns0] ns0 by simp
  have inv: "rel_inv es outs s"
    by (rule rel_inv_exec [OF assms(2) bl0 ns0 assms(3)])
  from inv have "if b < length (blocks s)
          then snd (blocks s ! b) + drops b es = Suc (copies b es) \<and>
               releases b es outs = (if snd (blocks s ! b) = 0 then 1 else 0)
          else copies b es = 0 \<and> drops b es = 0 \<and> releases b es outs = 0"
    unfolding rel_inv_def by blast
  with assms(4,5) have a: "n + drops b es = Suc (copies b es)"
    and b: "releases b es outs = (if n = 0 then 1 else 0)"
    by simp_all
  have c: "\<forall>i<length es. is_release b (es ! i, outs ! i) \<longrightarrow>
          drops b (take (Suc i) es) = Suc (copies b (take (Suc i) es))"
  proof (intro allI impI)
    fix i assume i: "i < length es" and r: "is_release b (es ! i, outs ! i)"
    from exec_length [OF assms(2)] i have io: "i < length outs" by simp
    from exec_take [OF assms(2), of "Suc i"] obtain s1 where
      ex: "exec (init p w') (take (Suc i) es) = Some (take (Suc i) outs, s1)" by blast
    have nd: "Destroy \<notin> set (take (Suc i) es)"
      using assms(3) by (meson in_set_takeD)
    have inv1: "rel_inv (take (Suc i) es) (take (Suc i) outs) s1"
      by (rule rel_inv_exec [OF ex bl0 ns0 nd])
    have "releases b (take (Suc i) es) (take (Suc i) outs) =
        releases b (take i es) (take i outs) + 1"
      using i io r exec_length [OF assms(2)]
      by (simp add: take_Suc_conv_app_nth releases_snoc)
    then have pos: "releases b (take (Suc i) es) (take (Suc i) outs) \<noteq> 0" by simp
    from inv1 have "if b < length (blocks s1)
          then snd (blocks s1 ! b) + drops b (take (Suc i) es) = Suc (copies b (take (Suc i) es)) \<and>
               releases b (take (Suc i) es) (take (Suc i) outs) =
                 (if snd (blocks s1 ! b) = 0 then 1 else 0)
          else copies b (take (Suc i) es) = 0 \<and> drops b (take (Suc i) es) = 0 \<and>
               releases b (take (Suc i) es) (take (Suc i) outs) = 0"
      unfolding rel_inv_def by blast
    with pos show "drops b (take (Suc i) es) = Suc (copies b (take (Suc i) es))"
      by (auto split: if_splits)
  qed
  have d: "0 < n \<longrightarrow>
         step s (Copy b) = Some (Done, s\<lparr>blocks := (blocks s)[b := (c, Suc n)]\<rparr>)"
    using assms(4,5) by (simp add: copy_ref_def)
  have e: "1 < n \<longrightarrow>
         step s (Drop b k) = Some (Done, s\<lparr>blocks := (blocks s)[b := (c, n - 1)]\<rparr>)"
    using assms(4,5) ns by (auto simp: drop_ref_def Let_def)
  have f: "n = 1 \<longrightarrow>
         exec s [Copy b, Drop b k] = Some ([Done, Done], s) \<and>
         step s (Drop b k) =
           Some (Released c, returnConnection k c (s\<lparr>blocks := (blocks s)[b := (c, 0)]\<rparr>)) \<and>
         pool (obj (returnConnection k c (s\<lparr>blocks := (blocks s)[b := (c, 0)]\<rparr>))) =
           pool (obj s) @ [c]"
  proof
    assume n: "n = 1"
    have id: "(blocks s)[b := (c, Suc 0)] = blocks s"
      using assms(5) n by (metis One_nat_def list_update_id)
    have "exec s [Copy b, Drop b k] = Some ([Done, Done], s)"
      using assms(4,5) ns n id by (simp add: copy_ref_def drop_ref_def)
    moreover have "step s (Drop b k) =
           Some (Released c, returnConnection k c (s\<lparr>blocks := (blocks s)[b := (c, 0)]\<rparr>))"
      using assms(4,5) ns n by (simp add: drop_ref_def)
    ultimately show "exec s [Copy b, Drop b k] = Some ([Done, Done], s) \<and>
         step s (Drop b k) =
           Some (Released c, returnConnection k c (s\<lparr>blocks := (blocks s)[b := (c, 0)]\<rparr>)) \<and>
         pool (obj (returnConnection k c (s\<lparr>blocks := (blocks s)[b := (c, 0)]\<rparr>))) =
           pool (obj s) @ [c]"
      by simp
  qed
  have g: "n = 0 \<longrightarrow> step s (Drop b k) = None \<and> step s (Copy b) = None"
    using assms(4,5) by (auto simp: drop_ref_def copy_ref_def)
  from a b c d e f g show ?thesis by blast
qed

theorem release_exactly_once_witness:
  "PgPool_ctor mk2 ''db'' 2 w0 = (Inr p2, w2)
   \<and> exec (init p2 w2) [Acquire 0, Copy 0] = Some ([Got 0 10, Done], s_two)
   \<and> step s_two (Drop 0 0) = Some (Done, s_own)
   \<and> exec (init p2 w2) [Acquire 0, Copy 0, Drop 0 0] = Some ([Got 0 10, Done, Done], s_own)
   \<and> releases 0 [Acquire 0, Copy 0, Drop 0 0] [Got 0 10, Done, Done] = 0
   \<and> exec s_own [Copy 0, Drop 0 0] = Some ([Done, Done], s_own)
   \<and> step s_own (Drop 0 0) = Some (Released 10, s_none)
   \<and> exec (init p2 w2) [Acquire 0, Copy 0, Drop 0 0, Drop 0 0] =
       Some ([Got 0 10, Done, Done, Released 10], s_none)
   \<and> releases 0 [Acquire 0, Copy 0, Drop 0 0, Drop 0 0] [Got 0 10, Done, Done, Released 10] = 1
   \<and> drops 0 [Acquire 0, Copy 0, Drop 0 0, Drop 0 0] =
       Suc (copies 0 [Acquire 0, Copy 0, Drop 0 0, Drop 0 0])
   \<and> step s_none (Drop 0 0) = None \<and> step s_none (Copy 0) = None"
proof -
  have nd2: "Destroy \<notin> set [Acquire 0, Copy 0]"
    and nd1: "Destroy \<notin> set [Acquire 0, Copy 0, Drop 0 0]"
    and nd0: "Destroy \<notin> set [Acquire 0, Copy 0, Drop 0 0, Drop 0 0]"
    by simp_all
  have l2: "0 < length (blocks s_two)" and b2: "blocks s_two ! 0 = (10, 2)"
    by (simp_all add: s_two_def)
  have l1: "0 < length (blocks s_own)" and b1: "blocks s_own ! 0 = (10, 1)"
    by (simp_all add: s_own_def)
  have l0: "0 < length (blocks s_none)" and b0: "blocks s_none ! 0 = (10, 0)"
    by (simp_all add: s_none_def)
  note h2 = release_exactly_once [OF ctor_p2 run_shared2 nd2 l2 b2, of 0]
  note h1 = release_exactly_once [OF ctor_p2 run_shared1 nd1 l1 b1, of 0]
  note h0 = release_exactly_once [OF ctor_p2 run_shared0 nd0 l0 b0, of 0]
  have two: "(1::nat) < 2" and one: "(1::nat) = 1" and zero: "(0::nat) = 0" by simp_all
  have e2: "s_two\<lparr>blocks := (blocks s_two)[0 := (10, 2 - 1)]\<rparr> = s_own"
    by (simp add: s_two_def s_own_def)
  have e1: "returnConnection 0 10 (s_own\<lparr>blocks := (blocks s_own)[0 := (10, 0)]\<rparr>) = s_none"
    by (simp add: s_own_def s_none_def returnConnection_def notify_one_def)
  from h2 two have "step s_two (Drop 0 0) =
      Some (Done, s_two\<lparr>blocks := (blocks s_two)[0 := (10, 2 - 1)]\<rparr>)"
    by blast
  then have r2: "step s_two (Drop 0 0) = Some (Done, s_own)" unfolding e2 .
  from h1 have "releases 0 [Acquire 0, Copy 0, Drop 0 0] [Got 0 10, Done, Done] =
      (if (1::nat) = 0 then 1 else 0)"
    by blast
  then have r1a: "releases 0 [Acquire 0, Copy 0, Drop 0 0] [Got 0 10, Done, Done] = 0"
    by simp
  from h1 one have r1b: "exec s_own [Copy 0, Drop 0 0] = Some ([Done, Done], s_own)"
    by blast
  from h1 one have "step s_own (Drop 0 0) =
      Some (Released 10, returnConnection 0 10 (s_own\<lparr>blocks := (blocks s_own)[0 := (10, 0)]\<rparr>))"
    by blast
  then have r1c: "step s_own (Drop 0 0) = Some (Released 10, s_none)" unfolding e1 .
  from h0 have "releases 0 [Acquire 0, Copy 0, Drop 0 0, Drop 0 0]
        [Got 0 10, Done, Done, Released 10] = (if (0::nat) = 0 then 1 else 0)"
    by blast
  then have r0a: "releases 0 [Acquire 0, Copy 0, Drop 0 0, Drop 0 0]
        [Got 0 10, Done, Done, Released 10] = 1"
    by simp
  from h0 have "0 + drops 0 [Acquire 0, Copy 0, Drop 0 0, Drop 0 0] =
       Suc (copies 0 [Acquire 0, Copy 0, Drop 0 0, Drop 0 0])"
    by blast
  then have r0b: "drops 0 [Acquire 0, Copy 0, Drop 0 0, Drop 0 0] =
       Suc (copies 0 [Acquire 0, Copy 0, Drop 0 0, Drop 0 0])"
    by (simp only: add_0)
  from h0 zero have r0c: "step s_none (Drop 0 0) = None \<and> step s_none (Copy 0) = None"
    by blast
  from ctor_p2 run_shared2 r2 run_shared1 r1a r1b r1c run_shared0 r0a r0b r0c
  show ?thesis by blast
qed

text \<open>
  C2. From the end of a successful construction on, as long as the destructor has not
  run, the length of the queue plus the number of live control blocks is \<open>poolSize\<close>,
  which is the size given to the constructor; the record of the server is the one the
  constructor left, so no connection was opened or closed in between.
\<close>

theorem pool_size_invariant:
  assumes "PgPool_ctor mk cs n w = (Inr p, w')"
    and "exec (init p w') es = Some (outs, s)" and "Destroy \<notin> set es"
  shows "length (pool (obj s)) + checked_out s = poolSize (obj s) \<and> poolSize (obj s) = n \<and>
         srv s = w' \<and> opened (srv s) = opened w @ pool p \<and> closed (srv s) = closed w"
proof -
  have "length (pool (obj s)) + checked_out s = length (pool p) + checked_out (init p w')"
    and "poolSize (obj s) = poolSize p" and "srv s = w'"
    using exec_balance [OF assms(2,3)] PgPool_ctor_Inr(4) [OF assms(1)]
    by (simp_all add: init_def)
  then show ?thesis
    using PgPool_ctor_Inr [OF assms(1)] by (simp add: init_def checked_out_def)
qed

theorem pool_size_invariant_witness:
  "PgPool_ctor mk2 ''db'' 2 w0 = (Inr p2, w2)
   \<and> exec (init p2 w2) [Acquire 0, Copy 0, Acquire 1, Drop 0 0, Acquire 2, Drop 0 1, Resume 2] =
       Some ([Got 0 10, Done, Got 1 11, Done, Blocked, Released 10, Got 2 10],
             \<lparr>obj = p2\<lparr>pool := []\<rparr>, srv = w2, blocks = [(10, 0), (11, 1), (10, 1)],
                waiting = [], woken = []\<rparr>)
   \<and> Destroy \<notin> set [Acquire 0, Copy 0, Acquire 1, Drop 0 0, Acquire 2, Drop 0 1, Resume 2]
   \<and> length (pool (obj \<lparr>obj = p2\<lparr>pool := []\<rparr>, srv = w2, blocks = [(10, 0), (11, 1), (10, 1)],
                waiting = [], woken = []\<rparr>))
       + checked_out \<lparr>obj = p2\<lparr>pool := []\<rparr>, srv = w2, blocks = [(10, 0), (11, 1), (10, 1)],
                waiting = [], woken = []\<rparr> = 2"
proof -
  have d: "Destroy \<notin> set [Acquire 0, Copy 0, Acquire 1, Drop 0 0, Acquire 2, Drop 0 1, Resume 2]"
    by simp
  show ?thesis
    using pool_size_invariant [OF ctor_p2 run_mixed d] ctor_p2 run_mixed d
    by (simp add: p2_def)
qed

text \<open>
  C4. Where the shutting-down error is expected for the threads parked in \<open>wait\<close> and for
  later callers, the code has no defined behaviour. The destructor does set \<open>stop\<close> and
  unblock every parked thread, and the body of \<open>acquire\<close> would throw the error on a
  record with \<open>stop\<close> set; but the destructor keeps \<open>mtx\<close> until it returns, and the mutex,
  the condition variable, the queue and \<open>stop\<close> are destroyed then. In the run below, a
  pool of two has both connections out and threads 2 and 3 parked when the destructor
  runs; thread 3 coming back from \<open>wait\<close> and thread 4 calling \<open>acquire\<close> afterwards both
  enter the destroyed object.
\<close>

theorem shutdown_wakes_into_destroyed_pool:
  "exec (init p2 w2) [Acquire 0, Acquire 1, Acquire 2, Acquire 3] =
     Some ([Got 0 10, Got 1 11, Blocked, Blocked], s_full)
   \<and> step s_full Destroy = Some (Done, s_down)
   \<and> waiting s_down = [] \<and> woken s_down = [2, 3] \<and> stop (obj s_down)
   \<and> step s_down (Resume 3) = Some (Undefined, s_gone)
   \<and> step s_gone (Acquire 4) = Some (Undefined, s_gone)"
  using run_full step_down
  by (simp add: s_down_def s_gone_def)

text \<open>
  C5. Where the connection is expected to be closed when the last owner goes after
  the pool, the code has no defined behaviour and closes nothing. The deleter made in
  \<open>acquire\<close> captured \<open>this\<close> and calls \<open>returnConnection\<close>, which locks the destroyed mutex
  and pushes onto the destroyed queue; no statement of the deleter or of
  \<open>returnConnection\<close> closes a connection. In the run below one of two connections is out
  when the destructor runs (which closes the idle one, 11); the last owner of
  connection 10 is destroyed afterwards, and 10 is never closed.
\<close>

theorem late_release_into_destroyed_pool:
  "exec (init p2 w2) [Acquire 0, Destroy, Drop 0 0] = Some ([Got 0 10, Done, Undefined], s_back)
   \<and> closed (srv s_back) = [11] \<and> pool (obj s_back) = []"
  by (simp add: run_defs s_back_def)



text \<open>
  C8. After a successful construction with size \<open>n\<close>, \<open>n\<close> calls of \<open>acquire\<close> in a row, by
  whatever threads, all return a connection without parking the caller, and the call
  after them parks its caller.
\<close>

theorem fresh_pool_serves_poolSize_acquires:
  assumes "PgPool_ctor mk cs n w = (Inr p, w')" and "length ts = n"
  shows "exec (init p w') (map Acquire ts) =
           Some (map (\<lambda>i. Got i (pool p ! i)) [0..<n],
                 (init p w')\<lparr>obj := p\<lparr>pool := []\<rparr>, blocks := map (\<lambda>c. (c, 1)) (pool p)\<rparr>)
    \<and> step ((init p w')\<lparr>obj := p\<lparr>pool := []\<rparr>, blocks := map (\<lambda>c. (c, 1)) (pool p)\<rparr>) (Acquire t) =
           Some (Blocked,
                 (init p w')\<lparr>obj := p\<lparr>pool := []\<rparr>, blocks := map (\<lambda>c. (c, 1)) (pool p),
                              waiting := [t]\<rparr>)"
proof -
  note c = PgPool_ctor_Inr [OF assms(1)]
  have "exec (init p w') (map Acquire ts) =
     Some (map (\<lambda>i. Got (length (blocks (init p w')) + i) (pool (obj (init p w')) ! i)) [0..<length ts],
           (init p w')\<lparr>obj := (obj (init p w'))\<lparr>pool := drop (length ts) (pool (obj (init p w')))\<rparr>,
             blocks := blocks (init p w') @
               map (\<lambda>c. (c, 1)) (take (length ts) (pool (obj (init p w'))))\<rparr>)"
    using c(3,4) assms(2) by (intro exec_acquires) (simp_all add: init_def)
  then have "exec (init p w') (map Acquire ts) =
           Some (map (\<lambda>i. Got i (pool p ! i)) [0..<n],
                 (init p w')\<lparr>obj := p\<lparr>pool := []\<rparr>, blocks := map (\<lambda>c. (c, 1)) (pool p)\<rparr>)"
    using c(3) assms(2) by (simp add: init_def)
  moreover have "step ((init p w')\<lparr>obj := p\<lparr>pool := []\<rparr>, blocks := map (\<lambda>c. (c, 1)) (pool p)\<rparr>) (Acquire t) =
           Some (Blocked,
                 (init p w')\<lparr>obj := p\<lparr>pool := []\<rparr>, blocks := map (\<lambda>c. (c, 1)) (pool p),
                              waiting := [t]\<rparr>)"
    using c(4) by (simp add: init_def acquire_def)
  ultimately show ?thesis by blast
qed

theorem fresh_pool_serves_poolSize_acquires_witness:
  "PgPool_ctor mk2 ''db'' 2 w0 = (Inr p2, w2) \<and> length [5, 5 :: nat] = 2
   \<and> exec (init p2 w2) [Acquire 5, Acquire 5] =
       Some ([Got 0 10, Got 1 11],
             \<lparr>obj = p2\<lparr>pool := []\<rparr>, srv = w2, blocks = [(10, 1), (11, 1)],
                waiting = [], woken = []\<rparr>)
   \<and> step \<lparr>obj = p2\<lparr>pool := []\<rparr>, srv = w2, blocks = [(10, 1), (11, 1)],
             waiting = [], woken = []\<rparr> (Acquire 6) =
       Some (Blocked,
             \<lparr>obj = p2\<lparr>pool := []\<rparr>, srv = w2, blocks = [(10, 1), (11, 1)],
                waiting = [6], woken = []\<rparr>)"
proof -
  have l: "length [5, 5 :: nat] = 2" by simp
  have u: "map (\<lambda>i. Got i (pool p2 ! i)) [0..<2] = [Got 0 10, Got 1 11]"
    by (simp add: p2_def upt_conv_Cons)
  have v: "(init p2 w2)\<lparr>obj := p2\<lparr>pool := []\<rparr>, blocks := map (\<lambda>c. (c, 1)) (pool p2)\<rparr> =
      \<lparr>obj = p2\<lparr>pool := []\<rparr>, srv = w2, blocks = [(10, 1), (11, 1)], waiting = [], woken = []\<rparr>"
    by (simp add: init_def p2_def)
  have x: "\<lparr>obj = p2\<lparr>pool := []\<rparr>, srv = w2, blocks = [(10, 1), (11, 1)], waiting = [],
        woken = []\<rparr>\<lparr>waiting := [6]\<rparr> =
      \<lparr>obj = p2\<lparr>pool := []\<rparr>, srv = w2, blocks = [(10, 1), (11, 1)], waiting = [6], woken = []\<rparr>"
    by simp
  have e: "map Acquire [5, 5] = [Acquire 5, Acquire 5]" by simp
  note h = fresh_pool_serves_poolSize_acquires [OF ctor_p2 l, of 6]
  from h have "exec (init p2 w2) [Acquire 5, Acquire 5] =
       Some ([Got 0 10, Got 1 11],
             \<lparr>obj = p2\<lparr>pool := []\<rparr>, srv = w2, blocks = [(10, 1), (11, 1)],
                waiting = [], woken = []\<rparr>)
   \<and> step \<lparr>obj = p2\<lparr>pool := []\<rparr>, srv = w2, blocks = [(10, 1), (11, 1)],
             waiting = [], woken = []\<rparr> (Acquire 6) =
       Some (Blocked,
             \<lparr>obj = p2\<lparr>pool := []\<rparr>, srv = w2, blocks = [(10, 1), (11, 1)],
                waiting = [6], woken = []\<rparr>)"
    unfolding u v x e sys.update_convs .
  with ctor_p2 l show ?thesis by blast
qed

text \<open>
  C9. The queue is first in, first out. While the pool is running, \<open>acquire\<close> hands out
  the connection at the front of the queue, a new control block with one owner, and
  \<open>returnConnection\<close> puts a connection at the back. Hence the first \<open>n\<close> calls on a fresh
  pool of size \<open>n\<close> return the connections in the order in which the constructor opened
  them, and after a connection has come back, successive calls return every connection
  that was in the queue at that time, in their order, before they return this one.
\<close>

theorem pool_is_fifo:
  "(\<not> stop (obj s) \<and> pool (obj s) = c # q \<longrightarrow>
      acquire t s = (Got (length (blocks s)) c,
                     s\<lparr>obj := (obj s)\<lparr>pool := q\<rparr>, blocks := blocks s @ [(c, 1)]\<rparr>))
   \<and> pool (obj (returnConnection k d s)) = pool (obj s) @ [d]
   \<and> (PgPool_ctor mk cs n w = (Inr p, w') \<and> length ts = n \<longrightarrow>
        opened w' = opened w @ pool p \<and>
        map_option fst (exec (init p w') (map Acquire ts)) =
          Some (map (\<lambda>i. Got i (pool p ! i)) [0..<n]))
   \<and> (\<not> stop (obj s) \<and> length ts = Suc (length (pool (obj s))) \<and>
        (\<forall>t\<in>set ts. t \<notin> set (waiting s) \<and> t \<notin> set (woken s)) \<longrightarrow>
        map_option fst (exec (returnConnection k d s) (map Acquire ts)) =
          Some (map (\<lambda>i. Got (length (blocks s) + i) (pool (obj s) ! i))
                  [0..<length (pool (obj s))] @
                [Got (length (blocks s) + length (pool (obj s))) d]))"
proof (intro conjI impI)
  assume "\<not> stop (obj s) \<and> pool (obj s) = c # q"
  then show "acquire t s = (Got (length (blocks s)) c,
                     s\<lparr>obj := (obj s)\<lparr>pool := q\<rparr>, blocks := blocks s @ [(c, 1)]\<rparr>)"
    by (simp add: acquire_front)
next
  show "pool (obj (returnConnection k d s)) = pool (obj s) @ [d]" by simp
next
  assume "PgPool_ctor mk cs n w = (Inr p, w') \<and> length ts = n"
  then show "opened w' = opened w @ pool p" using PgPool_ctor_Inr(6) by blast
next
  assume a: "PgPool_ctor mk cs n w = (Inr p, w') \<and> length ts = n"
  then have c: "length (pool p) = n" "\<not> stop p" using PgPool_ctor_Inr(3,4) by blast+
  have "exec (init p w') (map Acquire ts) =
     Some (map (\<lambda>i. Got (length (blocks (init p w')) + i) (pool (obj (init p w')) ! i)) [0..<length ts],
           (init p w')\<lparr>obj := (obj (init p w'))\<lparr>pool := drop (length ts) (pool (obj (init p w')))\<rparr>,
             blocks := blocks (init p w') @
               map (\<lambda>c. (c, 1)) (take (length ts) (pool (obj (init p w'))))\<rparr>)"
    using c a by (intro exec_acquires) (simp_all add: init_def)
  moreover have "blocks (init p w') = []" "obj (init p w') = p" by (simp_all add: init_def)
  ultimately show "map_option fst (exec (init p w') (map Acquire ts)) =
          Some (map (\<lambda>i. Got i (pool p ! i)) [0..<n])"
    using a by simp
next
  let ?r = "returnConnection k d s"
  assume a: "\<not> stop (obj s) \<and> length ts = Suc (length (pool (obj s))) \<and>
        (\<forall>t\<in>set ts. t \<notin> set (waiting s) \<and> t \<notin> set (woken s))"
  have thr: "\<forall>t\<in>set ts. t \<notin> set (waiting ?r) \<and> t \<notin> set (woken ?r)"
  proof
    fix t assume "t \<in> set ts"
    with a have "t \<notin> set (waiting s)" "t \<notin> set (woken s)" by blast+
    then show "t \<notin> set (waiting ?r) \<and> t \<notin> set (woken ?r)"
      unfolding returnConnection_def by (intro notify_one_threads) simp_all
  qed
  have ns: "\<not> stop (obj ?r)" and len: "length ts \<le> length (pool (obj ?r))"
    using a by simp_all
  have "exec ?r (map Acquire ts) =
     Some (map (\<lambda>i. Got (length (blocks ?r) + i) (pool (obj ?r) ! i)) [0..<length ts],
           ?r\<lparr>obj := (obj ?r)\<lparr>pool := drop (length ts) (pool (obj ?r))\<rparr>,
             blocks := blocks ?r @ map (\<lambda>c. (c, 1)) (take (length ts) (pool (obj ?r)))\<rparr>)"
    by (rule exec_acquires [OF ns len thr])
  moreover have "map (\<lambda>i. Got (length (blocks ?r) + i) (pool (obj ?r) ! i)) [0..<length ts] =
      map (\<lambda>i. Got (length (blocks s) + i) (pool (obj s) ! i)) [0..<length (pool (obj s))] @
        [Got (length (blocks s) + length (pool (obj s))) d]"
    using a by (simp add: nth_append)
  ultimately show "map_option fst (exec ?r (map Acquire ts)) =
          Some (map (\<lambda>i. Got (length (blocks s) + i) (pool (obj s) ! i))
                  [0..<length (pool (obj s))] @
                [Got (length (blocks s) + length (pool (obj s))) d])"
    by simp
qed

theorem pool_is_fifo_witness:
  "acquire 0 (init p2 w2) = (Got 0 10, (init p2 w2)\<lparr>obj := p2\<lparr>pool := [11]\<rparr>, blocks := [(10, 1)]\<rparr>)
   \<and> pool (obj (returnConnection 0 10 s_one)) = [11, 10]
   \<and> PgPool_ctor mk2 ''db'' 2 w0 = (Inr p2, w2) \<and> opened w2 = [10, 11]
   \<and> map_option fst (exec (init p2 w2) [Acquire 5, Acquire 5]) = Some [Got 0 10, Got 1 11]
   \<and> map_option fst (exec (returnConnection 0 10 s_one) [Acquire 7, Acquire 8]) =
       Some [Got 1 11, Got 2 10]"
proof -
  have a: "\<not> stop (obj (init p2 w2)) \<and> pool (obj (init p2 w2)) = 10 # [11]"
    by (simp add: init_def p2_def)
  have b: "PgPool_ctor mk2 ''db'' 2 w0 = (Inr p2, w2) \<and> length [5, 5 :: nat] = 2"
    using ctor_p2 by simp
  have c: "\<not> stop (obj s_one) \<and> length [7, 8 :: nat] = Suc (length (pool (obj s_one))) \<and>
      (\<forall>t\<in>set [7, 8]. t \<notin> set (waiting s_one) \<and> t \<notin> set (woken s_one))"
    by (simp add: s_one_def p2_def)
  have r1: "acquire 0 (init p2 w2) =
      (Got (length (blocks (init p2 w2))) 10,
       (init p2 w2)\<lparr>obj := (obj (init p2 w2))\<lparr>pool := [11]\<rparr>,
                    blocks := blocks (init p2 w2) @ [(10, 1)]\<rparr>)"
    using pool_is_fifo [of "init p2 w2" 10 "[11]" 0 0 0 mk2 "''db''" 2 w0 p2 w2 "[5, 5]"] a
    by blast
  have r2: "pool (obj (returnConnection 0 10 s_one)) = pool (obj s_one) @ [10]"
    using pool_is_fifo [of s_one 10 "[11]" 0 0 10 mk2 "''db''" 2 w0 p2 w2 "[7, 8]"] by blast
  have r3: "opened w2 = opened w0 @ pool p2 \<and>
      map_option fst (exec (init p2 w2) (map Acquire [5, 5])) =
        Some (map (\<lambda>i. Got i (pool p2 ! i)) [0..<2])"
    using pool_is_fifo [of "init p2 w2" 10 "[11]" 0 0 0 mk2 "''db''" 2 w0 p2 w2 "[5, 5]"] b
    by blast
  have r4: "map_option fst (exec (returnConnection 0 10 s_one) (map Acquire [7, 8])) =
      Some (map (\<lambda>i. Got (length (blocks s_one) + i) (pool (obj s_one) ! i))
              [0..<length (pool (obj s_one))] @
            [Got (length (blocks s_one) + length (pool (obj s_one))) 10])"
    using pool_is_fifo [of s_one 10 "[11]" 0 0 10 mk2 "''db''" 2 w0 p2 w2 "[7, 8]"] c by blast
  have e1: "acquire 0 (init p2 w2) =
      (Got 0 10, (init p2 w2)\<lparr>obj := p2\<lparr>pool := [11]\<rparr>, blocks := [(10, 1)]\<rparr>)"
    using r1 by (simp add: init_def)
  have e2: "pool (obj (returnConnection 0 10 s_one)) = [11, 10]"
    using r2 by (simp add: s_one_def)
  have e3: "opened w2 = [10, 11]" by (simp add: w2_def)
  have u: "map (\<lambda>i. Got i (pool p2 ! i)) [0..<2] = [Got 0 10, Got 1 11]"
    by (simp add: p2_def upt_conv_Cons)
  have v: "map (\<lambda>i. Got (length (blocks s_one) + i) (pool (obj s_one) ! i))
              [0..<length (pool (obj s_one))] @
            [Got (length (blocks s_one) + length (pool (obj s_one))) 10] =
           [Got 1 11, Got 2 10]"
    by (simp add: s_one_def p2_def)
  have m1: "map Acquire [5, 5] = [Acquire 5, Acquire 5]"
    and m2: "map Acquire [7, 8] = [Acquire 7, Acquire 8]" by simp_all
  from r3 have e4: "map_option fst (exec (init p2 w2) [Acquire 5, Acquire 5]) =
      Some [Got 0 10, Got 1 11]"
    unfolding u m1 by blast
  from r4 have e5: "map_option fst (exec (returnConnection 0 10 s_one) [Acquire 7, Acquire 8]) =
       Some [Got 1 11, Got 2 10]"
    unfolding v m2 .
  from e1 e2 e3 e4 e5 ctor_p2 show ?thesis by blast
qed

text \<open>
  C10. The constructor accepts size 0: it makes no attempt to connect and yields a
  pool with an empty queue. In every state of such a pool the queue is empty and no
  control block exists; a call of \<open>acquire\<close> that runs before the destructor parks its
  caller, and none returns a connection. The body of \<open>acquire\<close> has one way to complete
  on such a pool, the branch for \<open>stop\<close>, which throws the shutting-down error; \<open>stop\<close>
  is set by the destructor alone, and a call that runs after the destructor enters a
  destroyed object.
\<close>

theorem zero_size_pool:
  "PgPool_ctor mk cs 0 w =
     (Inr \<lparr>connectionString = cs, poolSize = 0, pool = [], stop = False\<rparr>, w)
   \<and> (exec (init \<lparr>connectionString = cs, poolSize = 0, pool = [], stop = False\<rparr> w) es =
         Some (outs, s) \<longrightarrow>
       pool (obj s) = [] \<and> blocks s = [] \<and> (stop (obj s) \<longleftrightarrow> Destroy \<in> set es) \<and>
       (\<forall>i<length es. \<forall>t. es ! i = Acquire t \<or> es ! i = Resume t \<longrightarrow>
          outs ! i = (if Destroy \<in> set (take i es) then Undefined else Blocked)) \<and>
       acquire t s = (if stop (obj s) then (Threw PoolShuttingDown, s)
                      else (Blocked, s\<lparr>waiting := waiting s @ [t]\<rparr>)))"
proof (intro conjI impI)
  let ?p0 = "\<lparr>connectionString = cs, poolSize = 0, pool = [], stop = False\<rparr>"
  show "PgPool_ctor mk cs 0 w = (Inr ?p0, w)"
    by (simp add: PgPool_ctor_def ctor_loop.simps [of mk 0 ?p0 w])
  assume ex: "exec (init ?p0 w) es = Some (outs, s)"
  have i: "pool (obj (init ?p0 w)) = []" "blocks (init ?p0 w) = []" "\<not> stop (obj (init ?p0 w))"
    by (simp_all add: init_def)
  note h = exec_empty [OF ex i(1,2)]
  from h show "pool (obj s) = []" "blocks s = []" by blast+
  from h i(3) show "stop (obj s) \<longleftrightarrow> Destroy \<in> set es" by blast
  from h i(3) show "\<forall>i<length es. \<forall>t. es ! i = Acquire t \<or> es ! i = Resume t \<longrightarrow>
          outs ! i = (if Destroy \<in> set (take i es) then Undefined else Blocked)"
    by simp
  from h show "acquire t s = (if stop (obj s) then (Threw PoolShuttingDown, s)
                      else (Blocked, s\<lparr>waiting := waiting s @ [t]\<rparr>))"
    by (simp add: acquire_def)
qed

theorem zero_size_pool_witness:
  "PgPool_ctor mk2 ''db'' 0 w0 = (Inr p0, w0)
   \<and> exec (init p0 w0) [Acquire 0, Spurious 0, Resume 0, Acquire 1, Destroy, Resume 0, Acquire 2] =
       Some ([Blocked, Done, Blocked, Blocked, Done, Undefined, Undefined], s_zero)
   \<and> pool (obj s_zero) = [] \<and> blocks s_zero = [] \<and> stop (obj s_zero)
   \<and> acquire 9 s_zero = (Threw PoolShuttingDown, s_zero)
   \<and> exec (init p0 w0) [] = Some ([], init p0 w0)
   \<and> acquire 9 (init p0 w0) = (Blocked, (init p0 w0)\<lparr>waiting := [9]\<rparr>)"
proof -
  let ?es = "[Acquire 0, Spurious 0, Resume 0, Acquire 1, Destroy, Resume 0, Acquire 2]"
  let ?outs = "[Blocked, Done, Blocked, Blocked, Done, Undefined, Undefined]"
  note h = zero_size_pool [of mk2 "''db''" w0 ?es ?outs s_zero 9, folded p0_def]
  note g = zero_size_pool [of mk2 "''db''" w0 "[]" "[]" "init p0 w0" 9, folded p0_def]
  have e: "exec (init p0 w0) [] = Some ([], init p0 w0)" by simp
  from h have c: "PgPool_ctor mk2 ''db'' 0 w0 = (Inr p0, w0)" by blast
  from h run_zero have a: "pool (obj s_zero) = []" "blocks s_zero = []"
      "stop (obj s_zero) \<longleftrightarrow> Destroy \<in> set ?es"
      "acquire 9 s_zero = (if stop (obj s_zero) then (Threw PoolShuttingDown, s_zero)
                      else (Blocked, s_zero\<lparr>waiting := waiting s_zero @ [9]\<rparr>))"
    by blast+
  from a(3) have st: "stop (obj s_zero)" by simp
  from g e have b: "stop (obj (init p0 w0)) \<longleftrightarrow> Destroy \<in> set []"
      "acquire 9 (init p0 w0) = (if stop (obj (init p0 w0)) then (Threw PoolShuttingDown, init p0 w0)
                      else (Blocked, (init p0 w0)\<lparr>waiting := waiting (init p0 w0) @ [9]\<rparr>))"
    by blast+
  from b have r: "acquire 9 (init p0 w0) = (Blocked, (init p0 w0)\<lparr>waiting := [9]\<rparr>)"
    by (simp add: init_def)
  from a(4) st have q: "acquire 9 s_zero = (Threw PoolShuttingDown, s_zero)" by simp
  from c run_zero a(1,2) st q e r show ?thesis by blast
qed

end
